theory Spec2Isabelle
  imports Main
begin

section \<open>Data model\<close>

text \<open>
  Question objects are mutable and shared by reference between the boxes and the
  controller, so the model keeps them in a store: a reference is the address of an
  object, the heap gives the object's current fields.

  A \<open>datetime\<close> is the number of microseconds since \<open>datetime.min\<close>, a
  \<open>timedelta\<close> a signed number of microseconds. The difference of two datetimes
  always fits a timedelta, so subtraction never raises.

  The location dictionary is keyed by \<open>str(question.id)\<close>; the canonical text of a
  UUID determines the UUID, so the model keys the dictionary by the UUID itself.
\<close>

type_synonym ref = nat
type_synonym uuid = nat
type_synonym datetime = nat
type_synonym timedelta = int

datatype error = KeyError | IndexError | ValueError | AttributeError | EOFError

text \<open>A value decoded from the question file.\<close>

datatype pyval = PNone | PBool bool | PInt int | PStr string

datatype variant = ShortAnswer (case_sensitive: pyval) | TrueFalse (explanation: pyval)

record question =
  qid :: uuid
  qtext :: pyval
  answer :: pyval
  last_asked :: datetime
  variant :: variant

type_synonym heap = "ref \<Rightarrow> question"

record box =
  name :: string
  questions :: "ref list"
  priority_interval :: timedelta

record box_manager =
  boxes :: "box list"
  question_location :: "uuid \<rightharpoonup> nat"

definition datetime_min :: datetime where
  "datetime_min = 0"

definition seconds :: "int \<Rightarrow> timedelta" where
  "seconds n = n * 1000000"

definition timedelta_max :: timedelta where
  "timedelta_max = 86399999999999999999"

section \<open>Question equality\<close>

text \<open>
  Both concrete classes override \<open>__eq__\<close>: the other object must be of the same
  class and carry the same id. \<open>__hash__\<close> hashes the id; \<open>hash_uuid\<close> stands for
  Python's hash of a UUID.
\<close>

fun question_eq :: "question \<Rightarrow> question \<Rightarrow> bool" where
  "question_eq p q =
     (case variant p of
        ShortAnswer _ \<Rightarrow> (case variant q of ShortAnswer _ \<Rightarrow> qid p = qid q | TrueFalse _ \<Rightarrow> False)
      | TrueFalse _ \<Rightarrow> (case variant q of TrueFalse _ \<Rightarrow> qid p = qid q | ShortAnswer _ \<Rightarrow> False))"


text \<open>List membership and removal compare by identity first, then by \<open>__eq__\<close>.\<close>

definition py_eq :: "heap \<Rightarrow> ref \<Rightarrow> ref \<Rightarrow> bool" where
  "py_eq h a b = (a = b \<or> question_eq (h a) (h b))"

definition list_contains :: "heap \<Rightarrow> ref list \<Rightarrow> ref \<Rightarrow> bool" where
  "list_contains h xs q = list_ex (\<lambda>x. py_eq h x q) xs"

fun list_remove :: "heap \<Rightarrow> ref list \<Rightarrow> ref \<Rightarrow> ref list" where
  "list_remove h [] q = []"
| "list_remove h (x # xs) q = (if py_eq h x q then xs else x # list_remove h xs q)"

section \<open>Box\<close>

definition Box :: "string \<Rightarrow> timedelta \<Rightarrow> box" where
  "Box n i = \<lparr>name = n, questions = [], priority_interval = i\<rparr>"

definition add_question :: "heap \<Rightarrow> ref \<Rightarrow> box \<Rightarrow> box" where
  "add_question h q b =
     (if \<not> list_contains h (questions b) q then b\<lparr>questions := questions b @ [q]\<rparr> else b)"

definition remove_question :: "heap \<Rightarrow> ref \<Rightarrow> box \<Rightarrow> box" where
  "remove_question h q b =
     (if list_contains h (questions b) q then b\<lparr>questions := list_remove h (questions b) q\<rparr>
      else b)"

text \<open>
  \<open>sorted\<close> is a stable sort, as is \<open>sort_key\<close>. The clock is read once, after
  sorting; \<open>now\<close> is that reading.
\<close>

definition elapsed :: "heap \<Rightarrow> datetime \<Rightarrow> ref \<Rightarrow> timedelta" where
  "elapsed h now q = int now - int (last_asked (h q))"

definition get_next_priority_question :: "heap \<Rightarrow> datetime \<Rightarrow> box \<Rightarrow> ref option" where
  "get_next_priority_question h now b =
     find (\<lambda>q. elapsed h now q \<ge> priority_interval b)
       (sort_key (\<lambda>q. last_asked (h q)) (questions b))"

section \<open>BoxManager\<close>

definition BoxManager_init :: box_manager where
  "BoxManager_init =
     \<lparr>boxes =
        [Box ''Missed Questions'' (seconds 60),
         Box ''Unasked Questions'' (seconds 0),
         Box ''Correctly Answered Once'' (seconds 180),
         Box ''Correctly Answered Twice'' (seconds 360),
         Box ''Known Questions'' timedelta_max],
      question_location = Map.empty\<rparr>"

definition add_new_question :: "heap \<Rightarrow> ref \<Rightarrow> box_manager \<Rightarrow> error + box_manager" where
  "add_new_question h q m =
     (if 1 < length (boxes m) then
        Inr (m\<lparr>boxes := (boxes m)[1 := add_question h q (boxes m ! 1)],
               question_location := (question_location m)(qid (h q) \<mapsto> 1)\<rparr>)
      else Inl IndexError)"

definition new_box_index :: "nat \<Rightarrow> bool \<Rightarrow> nat \<Rightarrow> nat" where
  "new_box_index current_box_index answered_correctly nboxes =
     (if answered_correctly then
        (if current_box_index = 0 then 2 else min (current_box_index + 1) (nboxes - 1))
      else 0)"

text \<open>Printing the box counts has no effect on the state and is left out.\<close>

definition move_question :: "heap \<Rightarrow> ref \<Rightarrow> bool \<Rightarrow> box_manager \<Rightarrow> error + box_manager" where
  "move_question h q answered_correctly m =
     (case question_location m (qid (h q)) of
        None \<Rightarrow> Inl KeyError
      | Some current_box_index \<Rightarrow>
          let new_index = new_box_index current_box_index answered_correctly (length (boxes m)) in
          if current_box_index \<ge> length (boxes m) then Inl IndexError
          else
            let bs1 = (boxes m)[current_box_index := remove_question h q (boxes m ! current_box_index)] in
            if new_index \<ge> length bs1 then Inl IndexError
            else
              let bs2 = bs1[new_index := add_question h q (bs1 ! new_index)] in
              Inr (m\<lparr>boxes := bs2,
                     question_location := (question_location m)(qid (h q) \<mapsto> new_index)\<rparr>))"

text \<open>
  The scan visits every box but the last. Each visited box reads the clock once:
  \<open>clock\<close> gives the successive readings, \<open>t\<close> counts the readings made so far.
  A question object is always truthy, so the test in the loop is a test for \<open>None\<close>.
\<close>

fun scan_boxes :: "heap \<Rightarrow> (nat \<Rightarrow> datetime) \<Rightarrow> nat \<Rightarrow> box list \<Rightarrow> ref option \<times> nat" where
  "scan_boxes h clock t [] = (None, t)"
| "scan_boxes h clock t (b # bs) =
     (case get_next_priority_question h (clock t) b of
        Some q \<Rightarrow> (Some q, Suc t)
      | None \<Rightarrow> scan_boxes h clock (Suc t) bs)"

definition get_next_question :: "heap \<Rightarrow> (nat \<Rightarrow> datetime) \<Rightarrow> nat \<Rightarrow> box_manager \<Rightarrow> ref option \<times> nat" where
  "get_next_question h clock t m = scan_boxes h clock t (butlast (boxes m))"

section \<open>Strings\<close>

text \<open>
  A string is a list of 8-bit characters, read as the code points 0 to 255. On these,
  \<open>str.strip\<close> and the pattern class for white space agree on what white space is,
  \<open>str.lower\<close> moves the upper-case letters 32 places up, and the pattern class for
  word characters holds the letters, the digits, the numeric signs and the underscore.
\<close>

definition isspace :: "char \<Rightarrow> bool" where
  "isspace c =
     (let n = (of_char c :: nat) in (9 \<le> n \<and> n \<le> 13) \<or> (28 \<le> n \<and> n \<le> 32) \<or> n = 133 \<or> n = 160)"

definition isword :: "char \<Rightarrow> bool" where
  "isword c =
     (let n = (of_char c :: nat) in
        (48 \<le> n \<and> n \<le> 57) \<or> (65 \<le> n \<and> n \<le> 90) \<or> n = 95 \<or> (97 \<le> n \<and> n \<le> 122) \<or>
        n = 170 \<or> n = 178 \<or> n = 179 \<or> n = 181 \<or> n = 185 \<or> n = 186 \<or> (188 \<le> n \<and> n \<le> 190) \<or>
        (192 \<le> n \<and> n \<le> 214) \<or> (216 \<le> n \<and> n \<le> 246) \<or> 248 \<le> n)"

definition lower_char :: "char \<Rightarrow> char" where
  "lower_char c =
     (let n = (of_char c :: nat) in
        if (65 \<le> n \<and> n \<le> 90) \<or> (192 \<le> n \<and> n \<le> 214) \<or> (216 \<le> n \<and> n \<le> 222)
        then char_of (n + 32) else c)"

definition lower :: "string \<Rightarrow> string" where
  "lower s = map lower_char s"

definition strip :: "string \<Rightarrow> string" where
  "strip s = rev (dropWhile isspace (rev (dropWhile isspace s)))"

text \<open>\<open>re.sub(r'[^\w\s]', '', text)\<close> deletes every character outside both classes.\<close>

definition sub_nonword_nonspace :: "string \<Rightarrow> string" where
  "sub_nonword_nonspace s = filter (\<lambda>c. isword c \<or> isspace c) s"

section \<open>Questions\<close>

definition Question_init :: "uuid \<Rightarrow> pyval \<Rightarrow> pyval \<Rightarrow> variant \<Rightarrow> question" where
  "Question_init u question a v =
     \<lparr>qid = u, qtext = question, answer = a, last_asked = datetime_min, variant = v\<rparr>"

definition ShortAnswer_init :: "uuid \<Rightarrow> pyval \<Rightarrow> pyval \<Rightarrow> pyval \<Rightarrow> question" where
  "ShortAnswer_init u question a cs = Question_init u question a (ShortAnswer cs)"

text \<open>The base initialiser runs first, then the answer is checked to be a boolean.\<close>

definition TrueFalse_init :: "uuid \<Rightarrow> pyval \<Rightarrow> pyval \<Rightarrow> pyval \<Rightarrow> error + question" where
  "TrueFalse_init u question a expl =
     (case a of
        PBool _ \<Rightarrow> Inr (Question_init u question a (TrueFalse expl))
      | _ \<Rightarrow> Inl ValueError)"

text \<open>Truth value of an object in a condition.\<close>

fun truthy :: "pyval \<Rightarrow> bool" where
  "truthy PNone = False"
| "truthy (PBool b) = b"
| "truthy (PInt i) = (i \<noteq> 0)"
| "truthy (PStr s) = (s \<noteq> [])"

text \<open>\<open>b == v\<close> for a boolean \<open>b\<close>: booleans are the integers 0 and 1.\<close>

fun bool_equals :: "bool \<Rightarrow> pyval \<Rightarrow> bool" where
  "bool_equals b (PBool c) = (b = c)"
| "bool_equals b (PInt i) = (i = (if b then 1 else 0))"
| "bool_equals b _ = False"

definition normalize_str :: "pyval \<Rightarrow> string \<Rightarrow> string" where
  "normalize_str cs text =
     (let text1 = strip text;
          text2 = (if \<not> truthy cs then lower text1 else text1)
      in sub_nonword_nonspace text2)"

text \<open>
  The provided answer is a line of input, a string. The stored answer is whatever the
  question file held; normalising anything but a string raises.
\<close>

definition ShortAnswer_check_answer :: "pyval \<Rightarrow> pyval \<Rightarrow> string \<Rightarrow> error + bool" where
  "ShortAnswer_check_answer cs stored provided =
     (let normalized_provided_answer = normalize_str cs provided in
      case stored of
        PStr correct \<Rightarrow> Inr (normalized_provided_answer = normalize_str cs correct)
      | _ \<Rightarrow> Inl AttributeError)"

definition TrueFalse_check_answer :: "pyval \<Rightarrow> string \<Rightarrow> error + bool" where
  "TrueFalse_check_answer stored provided =
     (let normalized_answer = lower (strip provided) in
      if normalized_answer \<in> set [''true'', ''t''] then Inr (bool_equals True stored)
      else if normalized_answer \<in> set [''false'', ''f''] then Inr (bool_equals False stored)
      else Inl ValueError)"

definition check_answer :: "question \<Rightarrow> string \<Rightarrow> error + bool" where
  "check_answer q provided =
     (case variant q of
        ShortAnswer cs \<Rightarrow> ShortAnswer_check_answer cs (answer q) provided
      | TrueFalse _ \<Rightarrow> TrueFalse_check_answer (answer q) provided)"

text \<open>
  \<open>ask\<close> records the clock reading on the object and returns the text to print; both
  classes do the same to the object, and the printed text is not part of the state.
\<close>

definition ask :: "heap \<Rightarrow> datetime \<Rightarrow> ref \<Rightarrow> heap" where
  "ask h now q = h(q := (h q)\<lparr>last_asked := now\<rparr>)"

section \<open>ARController\<close>

text \<open>
  The state of a session: the store and the number of objects allocated so far (the
  next object gets that number as its address, and the identifier that the generator of
  identifiers yields at that call), the manager, the number of clock readings made, and
  the lines still to come on the input.
\<close>

record session =
  heap :: heap
  allocated :: nat
  manager :: box_manager
  ticks :: nat
  stdin :: "string list"

definition dict_get :: "(string \<rightharpoonup> pyval) \<Rightarrow> string \<Rightarrow> pyval \<Rightarrow> pyval" where
  "dict_get d k dflt = (case d k of Some v \<Rightarrow> v | None \<Rightarrow> dflt)"

definition register :: "question \<Rightarrow> session \<Rightarrow> error + session" where
  "register q s =
     (let r = allocated s; h = (heap s)(r := q) in
      case add_new_question h r (manager s) of
        Inl e \<Rightarrow> Inl e
      | Inr m \<Rightarrow> Inr (s\<lparr>heap := h, allocated := Suc r, manager := m\<rparr>))"

text \<open>
  A missing key raises \<open>KeyError\<close> while the arguments are evaluated, before any
  object is made; the handler of the loop catches it and the loop goes on. Nothing
  catches the \<open>ValueError\<close> of \<open>TrueFalse_init\<close>.
\<close>

fun initialize_questions :: "(nat \<Rightarrow> uuid) \<Rightarrow> (string \<rightharpoonup> pyval) list \<Rightarrow> session \<Rightarrow> error + session" where
  "initialize_questions uuid4 [] s = Inr s"
| "initialize_questions uuid4 (q_data # rest) s =
     (let q_type = dict_get q_data ''type'' PNone in
      if q_type = PStr ''shortanswer'' then
        (case q_data ''question'' of
           None \<Rightarrow> initialize_questions uuid4 rest s
         | Some question \<Rightarrow>
        (case q_data ''correct_answer'' of
           None \<Rightarrow> initialize_questions uuid4 rest s
         | Some a \<Rightarrow>
        (case register (ShortAnswer_init (uuid4 (allocated s)) question a
                 (dict_get q_data ''case_sensitive'' (PBool False))) s of
           Inl e \<Rightarrow> Inl e
         | Inr s' \<Rightarrow> initialize_questions uuid4 rest s')))
      else if q_type = PStr ''truefalse'' then
        (case q_data ''question'' of
           None \<Rightarrow> initialize_questions uuid4 rest s
         | Some question \<Rightarrow>
        (case q_data ''correct_answer'' of
           None \<Rightarrow> initialize_questions uuid4 rest s
         | Some a \<Rightarrow>
        (case TrueFalse_init (uuid4 (allocated s)) question a
                 (dict_get q_data ''explanation'' (PStr [])) of
           Inl e \<Rightarrow> Inl e
         | Inr q \<Rightarrow>
        (case register q s of
           Inl e \<Rightarrow> Inl e
         | Inr s' \<Rightarrow> initialize_questions uuid4 rest s'))))
      else initialize_questions uuid4 rest s)"

definition new_session :: "string list \<Rightarrow> session" where
  "new_session lines =
     \<lparr>heap = (\<lambda>r. Question_init 0 PNone PNone (ShortAnswer PNone)), allocated = 0,
      manager = BoxManager_init, ticks = 0, stdin = lines\<rparr>"

definition ARController_init :: "(nat \<Rightarrow> uuid) \<Rightarrow> (string \<rightharpoonup> pyval) list \<Rightarrow> string list \<Rightarrow> error + session" where
  "ARController_init uuid4 question_data lines = initialize_questions uuid4 question_data (new_session lines)"

text \<open>
  One turn of the loop of \<open>start\<close>. \<open>Done\<close> is a \<open>break\<close>, \<open>Again\<close> the end of the
  body. Reading a line at the end of the input raises \<open>EOFError\<close>.
\<close>

datatype turn = Done session | Again session

definition turn_of :: "(nat \<Rightarrow> datetime) \<Rightarrow> session \<Rightarrow> error + turn" where
  "turn_of clock s =
     (case get_next_question (heap s) clock (ticks s) (manager s) of
        (None, t) \<Rightarrow> Inr (Done (s\<lparr>ticks := t\<rparr>))
      | (Some question, t) \<Rightarrow>
          let s1 = s\<lparr>heap := ask (heap s) (clock t) question, ticks := Suc t\<rparr> in
          (case stdin s1 of
             [] \<Rightarrow> Inl EOFError
           | user_answer # rest \<Rightarrow>
               let s2 = s1\<lparr>stdin := rest\<rparr> in
               if lower user_answer = ''q'' then Inr (Done s2)
               else
                 (case check_answer (heap s2 question) user_answer of
                    Inl e \<Rightarrow> Inl e
                  | Inr answered_correctly \<Rightarrow>
                      (case move_question (heap s2) question answered_correctly (manager s2) of
                         Inl e \<Rightarrow> Inl e
                       | Inr m \<Rightarrow> Inr (Again (s2\<lparr>manager := m\<rparr>))))))"

function start :: "(nat \<Rightarrow> datetime) \<Rightarrow> session \<Rightarrow> error + session" where
  "start clock s =
     (case turn_of clock s of
        Inl e \<Rightarrow> Inl e
      | Inr (Done s') \<Rightarrow> Inr s'
      | Inr (Again s') \<Rightarrow> start clock s')"
  by pat_completeness auto
termination
  by (relation "measure (\<lambda>(clock, s). length (stdin s))")
    (auto simp: turn_of_def Let_def split: prod.splits option.splits list.splits if_splits sum.splits)

text \<open>
  A small population for examples: the object at address \<open>r\<close> carries the
  identifier \<open>r\<close>; object 1 is a true/false question, the others are short answers.
  In \<open>demo_manager\<close> objects 0 and 1 have been added and nothing more.
\<close>

definition demo_heap :: heap where
  "demo_heap =
     (\<lambda>r. ShortAnswer_init r (PStr ''2+2?'') (PStr ''4'') (PBool False))
       (1 := Question_init 1 (PStr ''Sky is blue'') (PBool True) (TrueFalse (PStr [])))"

definition demo_manager :: box_manager where
  "demo_manager =
     \<lparr>boxes =
        [Box ''Missed Questions'' (seconds 60),
         \<lparr>name = ''Unasked Questions'', questions = [0, 1], priority_interval = seconds 0\<rparr>,
         Box ''Correctly Answered Once'' (seconds 180),
         Box ''Correctly Answered Twice'' (seconds 360),
         Box ''Known Questions'' timedelta_max],
      question_location = [0 \<mapsto> 1, 1 \<mapsto> 1]\<rparr>"

section \<open>Equality, membership and the boxes\<close>

lemma question_eq_qid: "question_eq p q \<Longrightarrow> qid p = qid q"
  by (cases "variant p"; cases "variant q"; simp)

lemma py_eq_qid: "py_eq h x q \<Longrightarrow> x = q \<or> qid (h x) = qid (h q)"
  unfolding py_eq_def by (blast dest: question_eq_qid)

lemma py_eq_refl: "py_eq h q q"
  by (simp add: py_eq_def)

lemma list_contains_iff: "list_contains h xs q \<longleftrightarrow> (\<exists>x\<in>set xs. py_eq h x q)"
  by (simp add: list_contains_def list_ex_iff)

lemma add_question_contains: "list_contains h (questions (add_question h q b)) q"
  by (auto simp: add_question_def list_contains_iff py_eq_refl)

lemma add_question_interval: "priority_interval (add_question h q b) = priority_interval b"
  by (simp add: add_question_def)

lemma remove_question_interval: "priority_interval (remove_question h q b) = priority_interval b"
  by (simp add: remove_question_def)

lemma five_boxes:
  assumes "length bs = 5"
  shows "bs = [bs ! 0, bs ! 1, bs ! 2, bs ! 3, bs ! 4]"
proof -
  from assms obtain a b c d e where "bs = [a, b, c, d, e]"
    by (auto simp: length_Suc_conv eval_nat_numeral)
  then show ?thesis by simp
qed

lemma butlast_five:
  assumes "length bs = 5"
  shows "butlast bs = [bs ! 0, bs ! 1, bs ! 2, bs ! 3]"
proof -
  have "butlast [bs ! 0, bs ! 1, bs ! 2, bs ! 3, bs ! 4] = [bs ! 0, bs ! 1, bs ! 2, bs ! 3]"
    by simp
  with five_boxes [OF assms] show ?thesis by simp
qed

text \<open>
  Where the objects at hand carry pairwise distinct identifiers, comparing by
  \<open>__eq__\<close> is comparing addresses, and the list operations are the ones on addresses.
\<close>

lemma py_eq_inj:
  assumes "inj_on (\<lambda>r. qid (h r)) R" and "x \<in> R" and "q \<in> R"
  shows "py_eq h x q \<longleftrightarrow> x = q"
  using assms py_eq_qid [of h x q] py_eq_refl [of h q] by (auto dest: inj_onD)

lemma list_contains_inj:
  assumes "inj_on (\<lambda>r. qid (h r)) R" and "set xs \<subseteq> R" and "q \<in> R"
  shows "list_contains h xs q \<longleftrightarrow> q \<in> set xs"
proof -
  have "py_eq h x q \<longleftrightarrow> x = q" if "x \<in> set xs" for x
    using that assms py_eq_inj [of h R x q] by blast
  then show ?thesis
    unfolding list_contains_iff by blast
qed

lemma list_remove_inj:
  assumes "inj_on (\<lambda>r. qid (h r)) R" and "set xs \<subseteq> R" and "q \<in> R"
  shows "list_remove h xs q = remove1 q xs"
proof -
  have "py_eq h x q \<longleftrightarrow> x = q" if "x \<in> set xs" for x
    using that assms py_eq_inj [of h R x q] by blast
  then show ?thesis
    by (induction xs) auto
qed

lemma add_question_inj:
  assumes "inj_on (\<lambda>r. qid (h r)) R" and "set (questions b) \<subseteq> R" and "q \<in> R"
  shows "questions (add_question h q b) = (if q \<in> set (questions b) then questions b else questions b @ [q])"
  using assms by (simp add: add_question_def list_contains_inj [of h R])

lemma remove_question_inj:
  assumes "inj_on (\<lambda>r. qid (h r)) R" and "set (questions b) \<subseteq> R" and "q \<in> R"
  shows "questions (remove_question h q b) = remove1 q (questions b)"
  using assms by (simp add: remove_question_def list_contains_inj [of h R] list_remove_inj [of h R] remove1_idem)

lemma add_question_frame:
  "name (add_question h q b) = name b \<and> priority_interval (add_question h q b) = priority_interval b"
  by (simp add: add_question_def)

lemma remove_question_frame:
  "name (remove_question h q b) = name b \<and> priority_interval (remove_question h q b) = priority_interval b"
  by (simp add: remove_question_def)

section \<open>Moving a question\<close>

lemma new_box_index_less: "i < 5 \<Longrightarrow> new_box_index i c 5 < 5"
  by (auto simp: new_box_index_def)

text \<open>
  What \<open>move_question\<close> returns for a question registered at box \<open>i\<close> of five: the
  box of the new index after an insertion, in the list where box \<open>i\<close> has had its
  removal, and the index updated at the question's identifier.
\<close>

lemma move_question_unfold:
  fixes m :: box_manager
  assumes "length (boxes m) = 5" and "question_location m (qid (h q)) = Some i" and "i < 5"
  shows "move_question h q c m =
     Inr (m\<lparr>boxes := ((boxes m)[i := remove_question h q (boxes m ! i)])
                [new_box_index i c 5 :=
                   add_question h q (((boxes m)[i := remove_question h q (boxes m ! i)]) ! new_box_index i c 5)],
            question_location := (question_location m)(qid (h q) \<mapsto> new_box_index i c 5)\<rparr>)"
  using assms new_box_index_less [of i c] by (simp add: move_question_def Let_def)

text \<open>
  The contents of the boxes after a move, in a manager where the question is held by
  box \<open>i\<close> alone, once, and the objects in the boxes carry pairwise distinct
  identifiers.
\<close>

lemma move_question_contents:
  fixes m :: box_manager
  assumes len: "length (boxes m) = 5" and i: "i < 5" and j: "j < 5"
    and inj: "inj_on (\<lambda>r. qid (h r)) (insert q (\<Union>k<5. set (questions (boxes m ! k))))"
    and dist: "distinct (questions (boxes m ! i))"
    and only: "\<forall>k<5. q \<in> set (questions (boxes m ! k)) \<longleftrightarrow> k = i"
    and k: "k < 5"
  shows "questions ((((boxes m)[i := remove_question h q (boxes m ! i)])
            [j := add_question h q (((boxes m)[i := remove_question h q (boxes m ! i)]) ! j)]) ! k) =
         (if k = i then remove1 q (questions (boxes m ! k)) else questions (boxes m ! k)) @
         (if k = j then [q] else [])"
proof -
  let ?R = "insert q (\<Union>k<5. set (questions (boxes m ! k)))"
  let ?Q = "\<lambda>k. questions (boxes m ! k)"
  define bs1 where "bs1 = (boxes m)[i := remove_question h q (boxes m ! i)]"
  have qR: "q \<in> ?R" by simp
  have subR: "set (?Q n) \<subseteq> ?R" if "n < 5" for n
    using that by blast
  have rem: "questions (remove_question h q (boxes m ! i)) = remove1 q (?Q i)"
    using inj subR [OF i] qR by (rule remove_question_inj)
  have Q1: "questions (bs1 ! n) = (if n = i then remove1 q (?Q n) else ?Q n)" if "n < 5" for n
    using that len rem by (simp add: bs1_def nth_list_update)
  have notin1: "q \<notin> set (questions (bs1 ! n))" if "n < 5" for n
    using that Q1 [OF that] dist only by auto
  have sub1: "set (questions (bs1 ! n)) \<subseteq> ?R" if "n < 5" for n
  proof -
    have "set (questions (bs1 ! n)) \<subseteq> set (?Q n)"
      using Q1 [OF that] set_remove1_subset [of q "?Q n"] by (auto split: if_splits)
    with subR [OF that] show ?thesis by blast
  qed
  have "questions (add_question h q (bs1 ! j)) =
      (if q \<in> set (questions (bs1 ! j)) then questions (bs1 ! j) else questions (bs1 ! j) @ [q])"
    using inj sub1 [OF j] qR by (rule add_question_inj)
  then have add: "questions (add_question h q (bs1 ! j)) = questions (bs1 ! j) @ [q]"
    using notin1 [OF j] by simp
  have len1: "length bs1 = 5" using len by (simp add: bs1_def)
  have "questions (bs1[j := add_question h q (bs1 ! j)] ! k) =
      (if k = j then questions (bs1 ! j) @ [q] else questions (bs1 ! k))"
    using k len1 add by (simp add: nth_list_update)
  then show ?thesis
    unfolding bs1_def [symmetric] using Q1 [OF k] Q1 [OF j] by auto
qed

text \<open>
  C1. For a question registered at box \<open>i\<close> of the five, \<open>move_question\<close> returns, and
  the box \<open>j\<close> it moves the question to depends on \<open>i\<close> and the flag only: 0 after an
  incorrect answer, 2 after a correct answer from box 0, \<open>min (i + 1) 4\<close> after a correct
  answer from boxes 1 to 3 (and 4 from box 4). Afterwards the location index is the old
  one with the question's identifier mapped to \<open>j\<close>, box \<open>j\<close> holds the question, the
  boxes other than \<open>i\<close> and \<open>j\<close> are as before, and every box has kept its name and its
  interval.

  The question is relocated: where the index told the truth about it (box \<open>i\<close>, and no
  other box, holds the question, once) and the objects in the boxes carry pairwise
  distinct identifiers, the question is taken out of box \<open>i\<close> and put at the end of
  box \<open>j\<close>, so that afterwards it is in box \<open>j\<close> and in no other box, and every other
  question is in the boxes it was in, in the same order.
\<close>

theorem move_question_target:
  fixes m :: box_manager
  assumes "length (boxes m) = 5" and "question_location m (qid (h q)) = Some i" and "i \<le> 4"
  shows "\<exists>m' j. move_question h q correct m = Inr m' \<and>
           (\<not> correct \<longrightarrow> j = 0) \<and>
           (correct \<and> i = 0 \<longrightarrow> j = 2) \<and>
           (correct \<and> 1 \<le> i \<and> i \<le> 3 \<longrightarrow> j = min (i + 1) 4 \<and> j = i + 1) \<and>
           (correct \<and> i = 4 \<longrightarrow> j = 4) \<and>
           question_location m' = (question_location m)(qid (h q) \<mapsto> j) \<and>
           question_location m' (qid (h q)) = Some j \<and>
           list_contains h (questions (boxes m' ! j)) q \<and>
           length (boxes m') = 5 \<and>
           (\<forall>k < 5. k \<noteq> i \<longrightarrow> k \<noteq> j \<longrightarrow> boxes m' ! k = boxes m ! k) \<and>
           (\<forall>k < 5. name (boxes m' ! k) = name (boxes m ! k) \<and>
              priority_interval (boxes m' ! k) = priority_interval (boxes m ! k)) \<and>
           (inj_on (\<lambda>r. qid (h r)) (insert q (\<Union>k<5. set (questions (boxes m ! k)))) \<and>
            distinct (questions (boxes m ! i)) \<and>
            (\<forall>k<5. q \<in> set (questions (boxes m ! k)) \<longleftrightarrow> k = i) \<longrightarrow>
              (\<forall>k<5. questions (boxes m' ! k) =
                 (if k = i then remove1 q (questions (boxes m ! k)) else questions (boxes m ! k)) @
                 (if k = j then [q] else [])) \<and>
              (\<forall>k<5. q \<in> set (questions (boxes m' ! k)) \<longleftrightarrow> k = j) \<and>
              (\<forall>k<5. \<forall>x. x \<noteq> q \<longrightarrow>
                 (x \<in> set (questions (boxes m' ! k)) \<longleftrightarrow> x \<in> set (questions (boxes m ! k)))))"
proof -
  define j where "j = new_box_index i correct 5"
  define bs1 where "bs1 = (boxes m)[i := remove_question h q (boxes m ! i)]"
  define m' where "m' = m\<lparr>boxes := bs1[j := add_question h q (bs1 ! j)],
      question_location := (question_location m)(qid (h q) \<mapsto> j)\<rparr>"
  from assms(3) have i: "i < 5" by simp
  have j: "j < 5" unfolding j_def using i by (rule new_box_index_less)
  have len: "length (boxes m) = 5" by (rule assms(1))
  have len1: "length bs1 = 5" using len by (simp add: bs1_def)
  have res: "move_question h q correct m = Inr m'"
    unfolding m'_def bs1_def j_def using assms(1,2) i by (rule move_question_unfold)
  have target: "(\<not> correct \<longrightarrow> j = 0) \<and> (correct \<and> i = 0 \<longrightarrow> j = 2) \<and>
      (correct \<and> 1 \<le> i \<and> i \<le> 3 \<longrightarrow> j = min (i + 1) 4 \<and> j = i + 1) \<and> (correct \<and> i = 4 \<longrightarrow> j = 4)"
    using i by (auto simp: j_def new_box_index_def)
  have loc: "question_location m' = (question_location m)(qid (h q) \<mapsto> j)"
    by (simp add: m'_def)
  then have locq: "question_location m' (qid (h q)) = Some j"
    by simp
  have boxes': "boxes m' = bs1[j := add_question h q (bs1 ! j)]"
    by (simp add: m'_def)
  have holds: "list_contains h (questions (boxes m' ! j)) q"
    using j len1 by (simp add: boxes' add_question_contains)
  have len': "length (boxes m') = 5"
    using len1 by (simp add: boxes')
  have frame: "\<forall>k < 5. k \<noteq> i \<longrightarrow> k \<noteq> j \<longrightarrow> boxes m' ! k = boxes m ! k"
    by (simp add: boxes' bs1_def)
  have names: "name (boxes m' ! k) = name (boxes m ! k) \<and>
      priority_interval (boxes m' ! k) = priority_interval (boxes m ! k)" if "k < 5" for k
  proof -
    have "name (bs1 ! k) = name (boxes m ! k) \<and> priority_interval (bs1 ! k) = priority_interval (boxes m ! k)"
      using that i len by (simp add: bs1_def nth_list_update remove_question_frame)
    moreover have "name (boxes m' ! k) = name (bs1 ! k) \<and>
        priority_interval (boxes m' ! k) = priority_interval (bs1 ! k)"
      using that j len1 by (simp add: boxes' nth_list_update add_question_frame)
    ultimately show ?thesis by simp
  qed
  have placed: "(\<forall>k<5. questions (boxes m' ! k) =
                 (if k = i then remove1 q (questions (boxes m ! k)) else questions (boxes m ! k)) @
                 (if k = j then [q] else [])) \<and>
              (\<forall>k<5. q \<in> set (questions (boxes m' ! k)) \<longleftrightarrow> k = j) \<and>
              (\<forall>k<5. \<forall>x. x \<noteq> q \<longrightarrow>
                 (x \<in> set (questions (boxes m' ! k)) \<longleftrightarrow> x \<in> set (questions (boxes m ! k))))"
    if inj: "inj_on (\<lambda>r. qid (h r)) (insert q (\<Union>k<5. set (questions (boxes m ! k))))"
      and dist: "distinct (questions (boxes m ! i))"
      and only: "\<forall>k<5. q \<in> set (questions (boxes m ! k)) \<longleftrightarrow> k = i"
  proof -
    have Q: "questions (boxes m' ! k) =
        (if k = i then remove1 q (questions (boxes m ! k)) else questions (boxes m ! k)) @
        (if k = j then [q] else [])" if "k < 5" for k
      unfolding boxes' bs1_def using len i j inj dist only that by (rule move_question_contents)
    have a: "q \<in> set (questions (boxes m' ! k)) \<longleftrightarrow> k = j" if "k < 5" for k
      using Q [OF that] only dist that by auto
    have b: "x \<in> set (questions (boxes m' ! k)) \<longleftrightarrow> x \<in> set (questions (boxes m ! k))"
      if "k < 5" and "x \<noteq> q" for k x
      using Q [OF that(1)] that(2) by auto
    from Q a b show ?thesis by blast
  qed
  from res target loc locq holds len' frame names placed show ?thesis
    by (intro exI [of _ m'] exI [of _ j]) blast
qed

text \<open>
  In \<open>demo_manager\<close> box 1 holds the objects 0 and 1. A correct answer takes object 0
  from box 1 to box 2 and leaves object 1 alone in box 1; an incorrect answer takes
  object 1 to box 0.
\<close>

theorem move_question_target_witness:
  "length (boxes demo_manager) = 5 \<and>
   question_location demo_manager (qid (demo_heap 0)) = Some 1 \<and>
   (\<exists>m'. move_question demo_heap 0 True demo_manager = Inr m' \<and>
      question_location m' (qid (demo_heap 0)) = Some 2 \<and>
      questions (boxes m' ! 0) = [] \<and> questions (boxes m' ! 1) = [1] \<and>
      questions (boxes m' ! 2) = [0] \<and> questions (boxes m' ! 3) = [] \<and>
      questions (boxes m' ! 4) = []) \<and>
   (\<exists>m'. move_question demo_heap 1 False demo_manager = Inr m' \<and>
      question_location m' (qid (demo_heap 1)) = Some 0 \<and>
      questions (boxes m' ! 0) = [1] \<and> questions (boxes m' ! 1) = [0])"
proof -
  let ?Q = "\<lambda>k. questions (boxes demo_manager ! k)"
  have len: "length (boxes demo_manager) = 5"
    by (simp add: demo_manager_def)
  have ids: "qid (demo_heap r) = r" for r
    by (simp add: demo_heap_def ShortAnswer_init_def Question_init_def)
  have l0: "question_location demo_manager (qid (demo_heap 0)) = Some 1"
    by (simp add: demo_manager_def ids)
  have l1: "question_location demo_manager (qid (demo_heap 1)) = Some 1"
    by (simp add: demo_manager_def ids)
  have Q: "?Q 0 = []" "?Q 1 = [0, 1]" "?Q 2 = []" "?Q 3 = []" "?Q 4 = []"
    by (simp_all add: demo_manager_def Box_def)
  have inj: "inj_on (\<lambda>r. qid (demo_heap r)) A" for A
    by (simp add: ids)
  have d: "distinct (?Q 1)"
    using Q(2) by simp
  have o0: "\<forall>k<5. (0::nat) \<in> set (?Q k) \<longleftrightarrow> k = 1"
    by (simp add: eval_nat_numeral All_less_Suc demo_manager_def Box_def)
  have o1: "\<forall>k<5. (1::nat) \<in> set (?Q k) \<longleftrightarrow> k = 1"
    by (simp add: eval_nat_numeral All_less_Suc demo_manager_def Box_def)
  from move_question_target [where m = demo_manager and h = demo_heap and q = 0 and i = 1
      and correct = True, OF len l0]
  obtain m' j where a: "move_question demo_heap 0 True demo_manager = Inr m'" "j = 2"
    "question_location m' (qid (demo_heap 0)) = Some j"
    "\<forall>k<5. questions (boxes m' ! k) =
       (if k = 1 then remove1 0 (?Q k) else ?Q k) @ (if k = j then [0] else [])"
    using inj d o0 by auto
  from a(4) [rule_format, of 0] a(4) [rule_format, of 1] a(4) [rule_format, of 2]
    a(4) [rule_format, of 3] a(4) [rule_format, of 4]
  have "questions (boxes m' ! 0) = [] \<and> questions (boxes m' ! 1) = [1] \<and>
      questions (boxes m' ! 2) = [0] \<and> questions (boxes m' ! 3) = [] \<and>
      questions (boxes m' ! 4) = []"
    using Q a(2) by simp
  with a have A: "\<exists>m'. move_question demo_heap 0 True demo_manager = Inr m' \<and>
      question_location m' (qid (demo_heap 0)) = Some 2 \<and>
      questions (boxes m' ! 0) = [] \<and> questions (boxes m' ! 1) = [1] \<and>
      questions (boxes m' ! 2) = [0] \<and> questions (boxes m' ! 3) = [] \<and>
      questions (boxes m' ! 4) = []"
    by blast
  from move_question_target [where m = demo_manager and h = demo_heap and q = 1 and i = 1
      and correct = False, OF len l1]
  obtain m'' j' where b: "move_question demo_heap 1 False demo_manager = Inr m''" "j' = 0"
    "question_location m'' (qid (demo_heap 1)) = Some j'"
    "\<forall>k<5. questions (boxes m'' ! k) =
       (if k = 1 then remove1 1 (?Q k) else ?Q k) @ (if k = j' then [1] else [])"
    using inj d o1 by auto
  from b(4) [rule_format, of 0] b(4) [rule_format, of 1]
  have "questions (boxes m'' ! 0) = [1] \<and> questions (boxes m'' ! 1) = [0]"
    using Q b(2) by simp
  with b have B: "\<exists>m'. move_question demo_heap 1 False demo_manager = Inr m' \<and>
      question_location m' (qid (demo_heap 1)) = Some 0 \<and>
      questions (boxes m' ! 0) = [1] \<and> questions (boxes m' ! 1) = [0]"
    by blast
  from len l0 A B show ?thesis by blast
qed

section \<open>Selection within a box\<close>

lemma find_SomeD: "find P xs = Some x \<Longrightarrow> x \<in> set xs \<and> P x"
  by (induction xs) (auto split: if_splits)

lemma find_sorted_least:
  assumes "sorted (map f ys)" and "\<And>x y. f x \<le> f y \<Longrightarrow> P y \<Longrightarrow> P x"
    and "find P ys = Some q"
  shows "\<forall>x\<in>set ys. f q \<le> f x"
proof (cases ys)
  case Nil
  with assms(3) show ?thesis by simp
next
  case (Cons y ys')
  from assms(3) have "q \<in> set ys" and "P q"
    by (auto dest: find_SomeD)
  with assms(1) Cons have "f y \<le> f q" by auto
  with assms(2) \<open>P q\<close> have "P y" by blast
  with assms(3) Cons have "q = y" by simp
  with assms(1) Cons show ?thesis by auto
qed

lemma eligible_antitone:
  "last_asked (h x) \<le> last_asked (h y) \<Longrightarrow> elapsed h now y \<ge> i \<Longrightarrow> elapsed h now x \<ge> i"
  by (simp add: elapsed_def)

lemma gnpq_Some:
  assumes "get_next_priority_question h now b = Some q"
  shows "q \<in> set (questions b)" and "elapsed h now q \<ge> priority_interval b"
    and "\<forall>x\<in>set (questions b). last_asked (h q) \<le> last_asked (h x)"
proof -
  let ?ys = "sort_key (\<lambda>q. last_asked (h q)) (questions b)"
  let ?P = "\<lambda>q. elapsed h now q \<ge> priority_interval b"
  from assms have f: "find ?P ?ys = Some q"
    by (simp add: get_next_priority_question_def)
  then have "q \<in> set ?ys" and "?P q"
    by (auto dest: find_SomeD)
  then show "q \<in> set (questions b)" and "elapsed h now q \<ge> priority_interval b"
    by simp_all
  have "\<forall>x\<in>set ?ys. last_asked (h q) \<le> last_asked (h x)"
    by (rule find_sorted_least [where P = ?P, OF _ _ f]) (auto intro: eligible_antitone)
  then show "\<forall>x\<in>set (questions b). last_asked (h q) \<le> last_asked (h x)"
    by simp
qed

lemma gnpq_None_iff:
  "get_next_priority_question h now b = None \<longleftrightarrow>
     (\<forall>x\<in>set (questions b). elapsed h now x < priority_interval b)"
  by (auto simp: get_next_priority_question_def find_None_iff)

text \<open>
  In \<open>demo_asked\<close> object 0 was last asked at second 100 and object 1 at second 30;
  \<open>demo_missed\<close> is a box of missed questions holding both.
\<close>

definition demo_asked :: heap where
  "demo_asked = ask (ask demo_heap 100000000 0) 30000000 1"

definition demo_missed :: box where
  "demo_missed = \<lparr>name = ''Missed Questions'', questions = [0, 1], priority_interval = seconds 60\<rparr>"

text \<open>
  C3. Whatever the box and the clock reading: a question that
  \<open>get_next_priority_question\<close> returns is a member of the box, the time since it was
  last asked is at least the box's interval, and no member was last asked earlier (a
  question never asked has the least timestamp there is); when no member has waited for
  the interval the result is \<open>None\<close>, and when some member has, a question is returned.
\<close>

theorem next_priority_question_correct:
  "(\<forall>q. get_next_priority_question h now b = Some q \<longrightarrow>
        q \<in> set (questions b) \<and>
        int now - int (last_asked (h q)) \<ge> priority_interval b \<and>
        (\<forall>x\<in>set (questions b). last_asked (h q) \<le> last_asked (h x))) \<and>
   ((\<forall>x\<in>set (questions b). int now - int (last_asked (h x)) < priority_interval b) \<longrightarrow>
        get_next_priority_question h now b = None) \<and>
   ((\<exists>x\<in>set (questions b). int now - int (last_asked (h x)) \<ge> priority_interval b) \<longrightarrow>
        get_next_priority_question h now b \<noteq> None)"
  using gnpq_Some [of h now b] gnpq_None_iff [of h now b]
  by (auto simp: elapsed_def)

lemma demo_missed_95: "get_next_priority_question demo_asked 95000000 demo_missed = Some 1"
  by (simp add: get_next_priority_question_def demo_missed_def demo_asked_def demo_heap_def
      ask_def elapsed_def seconds_def ShortAnswer_init_def Question_init_def)

lemma demo_missed_80: "get_next_priority_question demo_asked 80000000 demo_missed = None"
  by (simp add: get_next_priority_question_def demo_missed_def demo_asked_def demo_heap_def
      ask_def elapsed_def seconds_def ShortAnswer_init_def Question_init_def)

theorem next_priority_question_correct_witness:
  "get_next_priority_question demo_asked 95000000 demo_missed = Some 1 \<and>
   1 \<in> set (questions demo_missed) \<and>
   int 95000000 - int (last_asked (demo_asked 1)) \<ge> priority_interval demo_missed \<and>
   last_asked (demo_asked 1) \<le> last_asked (demo_asked 0) \<and>
   get_next_priority_question demo_asked 80000000 demo_missed = None"
proof -
  have mem: "0 \<in> set (questions demo_missed)"
    by (simp add: demo_missed_def)
  from next_priority_question_correct [of demo_asked 95000000 demo_missed] demo_missed_95
  have "1 \<in> set (questions demo_missed) \<and>
      int 95000000 - int (last_asked (demo_asked 1)) \<ge> priority_interval demo_missed \<and>
      (\<forall>x\<in>set (questions demo_missed). last_asked (demo_asked 1) \<le> last_asked (demo_asked x))"
    by blast
  with mem demo_missed_95 demo_missed_80 show ?thesis by blast
qed

section \<open>Selection across the boxes\<close>

lemma scan_boxes_four:
  "scan_boxes h clock t [b0, b1, b2, b3] =
     (case get_next_priority_question h (clock t) b0 of
        Some q \<Rightarrow> (Some q, t + 1)
      | None \<Rightarrow>
     (case get_next_priority_question h (clock (t + 1)) b1 of
        Some q \<Rightarrow> (Some q, t + 2)
      | None \<Rightarrow>
     (case get_next_priority_question h (clock (t + 2)) b2 of
        Some q \<Rightarrow> (Some q, t + 3)
      | None \<Rightarrow>
     (case get_next_priority_question h (clock (t + 3)) b3 of
        Some q \<Rightarrow> (Some q, t + 4)
      | None \<Rightarrow> (None, t + 4)))))"
  by (simp split: option.splits add: numeral_eq_Suc)

lemma scan_boxes_member:
  "fst (scan_boxes h clock t bs) = Some q \<Longrightarrow> \<exists>b\<in>set bs. q \<in> set (questions b)"
  by (induction bs arbitrary: t) (auto split: option.splits dest: gnpq_Some(1))

text \<open>
  C2. With five boxes, \<open>get_next_question\<close> asks boxes 0, 1, 2, 3 in this order, each
  with its own clock reading, and returns the first result that is not \<open>None\<close>. Box 4
  plays no part: replacing it by any box leaves the result as it is, and a question
  that is in none of the boxes 0 to 3 is never returned. When box 0 offers a question,
  that question is returned, whatever box 1 holds.
\<close>

theorem get_next_question_scan_order:
  fixes m :: box_manager
  assumes "length (boxes m) = 5"
  shows "fst (get_next_question h clock t m) =
      (case get_next_priority_question h (clock t) (boxes m ! 0) of Some q \<Rightarrow> Some q | None \<Rightarrow>
      (case get_next_priority_question h (clock (t + 1)) (boxes m ! 1) of Some q \<Rightarrow> Some q | None \<Rightarrow>
      (case get_next_priority_question h (clock (t + 2)) (boxes m ! 2) of Some q \<Rightarrow> Some q | None \<Rightarrow>
         get_next_priority_question h (clock (t + 3)) (boxes m ! 3)))) \<and>
    get_next_question h clock t (m\<lparr>boxes := (boxes m)[4 := b4]\<rparr>) = get_next_question h clock t m \<and>
    (\<forall>q. (\<forall>i<4. q \<notin> set (questions (boxes m ! i))) \<longrightarrow> fst (get_next_question h clock t m) \<noteq> Some q) \<and>
    (\<forall>q0. get_next_priority_question h (clock t) (boxes m ! 0) = Some q0 \<longrightarrow>
        fst (get_next_question h clock t m) = Some q0)"
proof -
  have bl: "butlast (boxes m) = [boxes m ! 0, boxes m ! 1, boxes m ! 2, boxes m ! 3]"
    using assms by (rule butlast_five)
  have one: "fst (get_next_question h clock t m) =
      (case get_next_priority_question h (clock t) (boxes m ! 0) of Some q \<Rightarrow> Some q | None \<Rightarrow>
      (case get_next_priority_question h (clock (t + 1)) (boxes m ! 1) of Some q \<Rightarrow> Some q | None \<Rightarrow>
      (case get_next_priority_question h (clock (t + 2)) (boxes m ! 2) of Some q \<Rightarrow> Some q | None \<Rightarrow>
         get_next_priority_question h (clock (t + 3)) (boxes m ! 3))))"
    unfolding get_next_question_def bl scan_boxes_four by (simp split: option.splits)
  have "butlast ((boxes m)[4 := b4]) = butlast (boxes m)"
    using assms by (simp add: butlast_list_update)
  then have two: "get_next_question h clock t (m\<lparr>boxes := (boxes m)[4 := b4]\<rparr>) = get_next_question h clock t m"
    by (simp add: get_next_question_def)
  have three: "fst (get_next_question h clock t m) \<noteq> Some q"
    if "\<forall>i<4. q \<notin> set (questions (boxes m ! i))" for q
  proof
    assume "fst (get_next_question h clock t m) = Some q"
    then obtain b where "b \<in> set (butlast (boxes m))" and "q \<in> set (questions b)"
      unfolding get_next_question_def by (blast dest: scan_boxes_member)
    with that show False unfolding bl by auto
  qed
  have four: "fst (get_next_question h clock t m) = Some q0"
    if "get_next_priority_question h (clock t) (boxes m ! 0) = Some q0" for q0
    using that by (simp add: one)
  from one two three four show ?thesis by blast
qed

text \<open>
  In \<open>demo_missed_manager\<close> object 1 has been missed and sits in box 0, object 0 is
  still unasked in box 1, and object 2 is known, in box 4.
\<close>

definition demo_missed_manager :: box_manager where
  "demo_missed_manager =
     \<lparr>boxes =
        [\<lparr>name = ''Missed Questions'', questions = [1], priority_interval = seconds 60\<rparr>,
         \<lparr>name = ''Unasked Questions'', questions = [0], priority_interval = seconds 0\<rparr>,
         Box ''Correctly Answered Once'' (seconds 180),
         Box ''Correctly Answered Twice'' (seconds 360),
         \<lparr>name = ''Known Questions'', questions = [2], priority_interval = timedelta_max\<rparr>],
      question_location = [0 \<mapsto> 1, 1 \<mapsto> 0, 2 \<mapsto> 4]\<rparr>"

theorem get_next_question_scan_order_witness:
  "length (boxes demo_missed_manager) = 5 \<and>
   get_next_priority_question demo_heap 95000000 (boxes demo_missed_manager ! 0) = Some 1 \<and>
   get_next_priority_question demo_heap 95000000 (boxes demo_missed_manager ! 1) = Some 0 \<and>
   fst (get_next_question demo_heap (\<lambda>t. 95000000) 0 demo_missed_manager) = Some 1 \<and>
   fst (get_next_question demo_heap (\<lambda>t. 95000000) 0 demo_missed_manager) \<noteq> Some 2"
proof -
  have len: "length (boxes demo_missed_manager) = 5"
    by (simp add: demo_missed_manager_def)
  have b0: "get_next_priority_question demo_heap 95000000 (boxes demo_missed_manager ! 0) = Some 1"
    by (simp add: get_next_priority_question_def demo_missed_manager_def demo_heap_def
        elapsed_def seconds_def ShortAnswer_init_def Question_init_def datetime_min_def)
  have b1: "get_next_priority_question demo_heap 95000000 (boxes demo_missed_manager ! 1) = Some 0"
    by (simp add: get_next_priority_question_def demo_missed_manager_def demo_heap_def
        elapsed_def seconds_def ShortAnswer_init_def Question_init_def datetime_min_def)
  have out: "\<forall>i<4. 2 \<notin> set (questions (boxes demo_missed_manager ! i))"
    by (simp add: demo_missed_manager_def Box_def eval_nat_numeral All_less_Suc)
  from get_next_question_scan_order [where m = demo_missed_manager and h = demo_heap
      and clock = "\<lambda>t. 95000000" and t = 0] len b0 out
  have "fst (get_next_question demo_heap (\<lambda>t. 95000000) 0 demo_missed_manager) = Some 1 \<and>
      fst (get_next_question demo_heap (\<lambda>t. 95000000) 0 demo_missed_manager) \<noteq> Some 2"
    by blast
  with len b0 b1 show ?thesis by blast
qed

section \<open>Adding a new question\<close>

text \<open>
  C4. For a manager with the intervals of the constructor and a question as the
  initialiser leaves it, \<open>add_new_question\<close> returns; afterwards box 1 holds the
  question and the location index maps it to 1. Box 1 has interval 0 and the
  question's timestamp is \<open>datetime_min\<close>, so at every clock reading the time since it
  was last asked is at least the interval. When no other object in box 1 carries the
  same identifier, the object itself is in the list of box 1 and
  \<open>get_next_priority_question\<close> on box 1 returns a question.
\<close>

theorem add_new_question_unasked:
  fixes m :: box_manager
  assumes "map priority_interval (boxes m) = map priority_interval (boxes BoxManager_init)"
    and "h q = Question_init u t a v"
  shows "\<exists>m'. add_new_question h q m = Inr m' \<and>
           list_contains h (questions (boxes m' ! 1)) q \<and>
           question_location m' (qid (h q)) = Some 1 \<and>
           priority_interval (boxes m' ! 1) = 0 \<and>
           last_asked (h q) = datetime_min \<and>
           int now - int (last_asked (h q)) \<ge> priority_interval (boxes m' ! 1) \<and>
           ((\<forall>x\<in>set (questions (boxes m ! 1)). x \<noteq> q \<longrightarrow> qid (h x) \<noteq> qid (h q)) \<longrightarrow>
              q \<in> set (questions (boxes m' ! 1)) \<and>
              get_next_priority_question h now (boxes m' ! 1) \<noteq> None)"
proof -
  let ?m' = "m\<lparr>boxes := (boxes m)[1 := add_question h q (boxes m ! 1)],
               question_location := (question_location m)(qid (h q) \<mapsto> 1)\<rparr>"
  have "length (map priority_interval (boxes m)) = 5"
    by (simp add: assms(1) BoxManager_init_def)
  then have len: "length (boxes m) = 5" by simp
  have "map priority_interval (boxes m) ! 1 = 0"
    by (simp add: assms(1) BoxManager_init_def Box_def seconds_def)
  with len have zero: "priority_interval (boxes m ! 1) = 0" by simp
  have res: "add_new_question h q m = Inr ?m'"
    using len by (simp add: add_new_question_def)
  have b1: "boxes ?m' ! 1 = add_question h q (boxes m ! 1)"
    using len by simp
  have fresh: "last_asked (h q) = datetime_min"
    by (simp add: assms(2) Question_init_def)
  have elig: "int now - int (last_asked (h q)) \<ge> 0"
    by (simp add: fresh datetime_min_def)
  have cond: "q \<in> set (questions (boxes ?m' ! 1)) \<and>
      get_next_priority_question h now (boxes ?m' ! 1) \<noteq> None"
    if uniq: "\<forall>x\<in>set (questions (boxes m ! 1)). x \<noteq> q \<longrightarrow> qid (h x) \<noteq> qid (h q)"
  proof -
    have "q \<in> set (questions (boxes m ! 1))" if "list_contains h (questions (boxes m ! 1)) q"
    proof -
      from that obtain x where x: "x \<in> set (questions (boxes m ! 1))" and "py_eq h x q"
        unfolding list_contains_iff by blast
      then have "x = q \<or> qid (h x) = qid (h q)" by (simp add: py_eq_qid)
      with uniq x show ?thesis by auto
    qed
    then have mem: "q \<in> set (questions (boxes ?m' ! 1))"
      unfolding b1 by (auto simp: add_question_def)
    have "priority_interval (boxes ?m' ! 1) = 0"
      unfolding b1 using zero by (simp add: add_question_interval)
    with mem elig have "get_next_priority_question h now (boxes ?m' ! 1) \<noteq> None"
      unfolding gnpq_None_iff elapsed_def by force
    with mem show ?thesis by simp
  qed
  show ?thesis
  proof (intro exI conjI)
    show "add_new_question h q m = Inr ?m'" by (rule res)
    show "list_contains h (questions (boxes ?m' ! 1)) q"
      unfolding b1 by (rule add_question_contains)
    show "question_location ?m' (qid (h q)) = Some 1" by simp
    show "priority_interval (boxes ?m' ! 1) = 0"
      unfolding b1 using zero by (simp add: add_question_interval)
    show "last_asked (h q) = datetime_min" by (rule fresh)
    show "priority_interval (boxes ?m' ! 1) \<le> int now - int (last_asked (h q))"
      unfolding b1 using elig zero by (simp add: add_question_interval)
    show "(\<forall>x\<in>set (questions (boxes m ! 1)). x \<noteq> q \<longrightarrow> qid (h x) \<noteq> qid (h q)) \<longrightarrow>
      q \<in> set (questions (boxes ?m' ! 1)) \<and>
      get_next_priority_question h now (boxes ?m' ! 1) \<noteq> None"
      using cond by blast
  qed
qed

theorem add_new_question_unasked_witness:
  "map priority_interval (boxes demo_manager) = map priority_interval (boxes BoxManager_init) \<and>
   demo_heap 2 = Question_init 2 (PStr ''2+2?'') (PStr ''4'') (ShortAnswer (PBool False)) \<and>
   qid (demo_heap 0) \<noteq> qid (demo_heap 2) \<and> qid (demo_heap 1) \<noteq> qid (demo_heap 2) \<and>
   (\<exists>m'. add_new_question demo_heap 2 demo_manager = Inr m' \<and>
      question_location m' (qid (demo_heap 2)) = Some 1 \<and>
      2 \<in> set (questions (boxes m' ! 1)) \<and>
      get_next_priority_question demo_heap 0 (boxes m' ! 1) \<noteq> None)"
proof -
  have iv: "map priority_interval (boxes demo_manager) = map priority_interval (boxes BoxManager_init)"
    by (simp add: demo_manager_def BoxManager_init_def Box_def)
  have q2: "demo_heap 2 = Question_init 2 (PStr ''2+2?'') (PStr ''4'') (ShortAnswer (PBool False))"
    by (simp add: demo_heap_def ShortAnswer_init_def)
  have ids: "qid (demo_heap 0) \<noteq> qid (demo_heap 2)" "qid (demo_heap 1) \<noteq> qid (demo_heap 2)"
    by (simp_all add: demo_heap_def ShortAnswer_init_def Question_init_def)
  have uniq: "\<forall>x\<in>set (questions (boxes demo_manager ! 1)). x \<noteq> 2 \<longrightarrow> qid (demo_heap x) \<noteq> qid (demo_heap 2)"
    using ids by (simp add: demo_manager_def)
  from add_new_question_unasked [where m = demo_manager and h = demo_heap and q = 2
      and now = 0, OF iv q2] uniq
  have "\<exists>m'. add_new_question demo_heap 2 demo_manager = Inr m' \<and>
      question_location m' (qid (demo_heap 2)) = Some 1 \<and>
      2 \<in> set (questions (boxes m' ! 1)) \<and>
      get_next_priority_question demo_heap 0 (boxes m' ! 1) \<noteq> None"
    by blast
  with iv q2 ids show ?thesis by blast
qed

section \<open>Checking answers\<close>

text \<open>
  C6. For a true/false question (its stored answer is a boolean \<open>canon\<close>, as the
  initialiser guarantees), \<open>check_answer\<close> trims and lower-cases the response; on
  \<open>true\<close> or \<open>t\<close> it returns whether \<open>canon\<close> is true, on \<open>false\<close> or \<open>f\<close> whether
  \<open>canon\<close> is false, and on anything else it raises \<open>ValueError\<close>: the result is an
  error, not the answer "incorrect".
\<close>

theorem TrueFalse_check_answer_tokens:
  assumes "variant q = TrueFalse e" and "answer q = PBool canon"
  shows "(lower (strip s) = ''true'' \<or> lower (strip s) = ''t'' \<longrightarrow> check_answer q s = Inr canon) \<and>
         (lower (strip s) = ''false'' \<or> lower (strip s) = ''f'' \<longrightarrow> check_answer q s = Inr (\<not> canon)) \<and>
         (lower (strip s) \<notin> {''true'', ''t'', ''false'', ''f''} \<longrightarrow>
            check_answer q s = Inl ValueError \<and> check_answer q s \<noteq> Inr False)"
  using assms by (auto simp: check_answer_def TrueFalse_check_answer_def)

theorem TrueFalse_check_answer_tokens_witness:
  "variant (demo_heap 1) = TrueFalse (PStr []) \<and> answer (demo_heap 1) = PBool True \<and>
   lower (strip ''  True '') = ''true'' \<and> check_answer (demo_heap 1) ''  True '' = Inr True \<and>
   lower (strip ''F'') = ''f'' \<and> check_answer (demo_heap 1) ''F'' = Inr False \<and>
   lower (strip ''yes'') = ''yes'' \<and> check_answer (demo_heap 1) ''yes'' = Inl ValueError"
proof -
  have v: "variant (demo_heap 1) = TrueFalse (PStr [])" and a: "answer (demo_heap 1) = PBool True"
    by (simp_all add: demo_heap_def Question_init_def)
  have n1: "lower (strip ''  True '') = ''true''"
    by code_simp
  have n2: "lower (strip ''F'') = ''f''"
    by code_simp
  have n3: "lower (strip ''yes'') = ''yes''"
    by code_simp
  have n3': "lower (strip ''yes'') \<notin> {''true'', ''t'', ''false'', ''f''}"
    unfolding n3 by simp
  from TrueFalse_check_answer_tokens [OF v a, of "''  True ''"] n1
  have c1: "check_answer (demo_heap 1) ''  True '' = Inr True" by simp
  from TrueFalse_check_answer_tokens [OF v a, of "''F''"] n2
  have c2: "check_answer (demo_heap 1) ''F'' = Inr False" by simp
  from TrueFalse_check_answer_tokens [OF v a, of "''yes''"] n3'
  have c3: "check_answer (demo_heap 1) ''yes'' = Inl ValueError" by blast
  from v a n1 n2 n3 c1 c2 c3 show ?thesis by blast
qed

section \<open>Normalising short answers\<close>

















section \<open>Equality and hashing of questions\<close>





section \<open>Loading the questions\<close>

text \<open>
  A record of an unsupported type, or with a required key missing, is passed over:
  the load goes on with the rest of the list from the same state.
\<close>

lemma initialize_questions_skips:
  assumes "(dict_get d ''type'' PNone \<noteq> PStr ''shortanswer'' \<and> dict_get d ''type'' PNone \<noteq> PStr ''truefalse'')
      \<or> d ''question'' = None \<or> d ''correct_answer'' = None"
  shows "initialize_questions uuid4 (d # rest) s = initialize_questions uuid4 rest s"
  using assms by (auto simp: Let_def split: option.splits)

text \<open>
  Three records: one of an unsupported type, a true/false record whose answer is the
  text \<open>yes\<close> and not a boolean, and a short-answer record with nothing wrong.
\<close>

definition essay_record :: "string \<rightharpoonup> pyval" where
  "essay_record =
     [''type'' \<mapsto> PStr ''essay'', ''question'' \<mapsto> PStr ''Why?'', ''correct_answer'' \<mapsto> PStr ''Because'']"

definition yes_record :: "string \<rightharpoonup> pyval" where
  "yes_record =
     [''type'' \<mapsto> PStr ''truefalse'', ''question'' \<mapsto> PStr ''Sky is blue'',
      ''correct_answer'' \<mapsto> PStr ''yes'']"

definition sum_record :: "string \<rightharpoonup> pyval" where
  "sum_record =
     [''type'' \<mapsto> PStr ''shortanswer'', ''question'' \<mapsto> PStr ''2+2?'', ''correct_answer'' \<mapsto> PStr ''4'']"

text \<open>
  C7. The load of the three records above stops with \<open>ValueError\<close> at the second
  one: the handler of the loop catches \<open>KeyError\<close> only, so the short-answer record
  after it is never added. Without the second record the load returns, with one
  question allocated and in box 1.
\<close>

theorem initialize_questions_aborts:
  "ARController_init uuid4 [essay_record, yes_record, sum_record] lines = Inl ValueError \<and>
   (\<exists>s. ARController_init uuid4 [essay_record, sum_record] lines = Inr s \<and> allocated s = 1 \<and>
      questions (boxes (manager s) ! 1) = [0])"
proof -
  have skip: "initialize_questions uuid4 (essay_record # rest) s = initialize_questions uuid4 rest s"
    for rest s
    by (rule initialize_questions_skips) (simp add: essay_record_def dict_get_def)
  have "initialize_questions uuid4 (yes_record # rest) s = Inl ValueError" for rest s
    by (simp add: yes_record_def dict_get_def TrueFalse_init_def)
  then have one: "ARController_init uuid4 [essay_record, yes_record, sum_record] lines = Inl ValueError"
    by (simp only: ARController_init_def skip)
  have "\<exists>s. initialize_questions uuid4 [sum_record] (new_session lines) = Inr s \<and> allocated s = 1 \<and>
      questions (boxes (manager s) ! 1) = [0]"
    by (simp add: sum_record_def dict_get_def new_session_def register_def add_new_question_def
        BoxManager_init_def Box_def add_question_def list_contains_def)
  then have two: "\<exists>s. ARController_init uuid4 [essay_record, sum_record] lines = Inr s \<and> allocated s = 1 \<and>
      questions (boxes (manager s) ! 1) = [0]"
    by (simp only: ARController_init_def skip)
  from one two show ?thesis by blast
qed

section \<open>Quitting a session\<close>

text \<open>
  C10. When the scan offers question \<open>q\<close> (after which the clock has been read \<open>t\<close>
  times) and the next line of input lower-cases to \<open>q\<close>, the loop ends at once:
  \<open>start\<close> returns, no answer is checked and no question moved, so the manager (the
  boxes and the location index) is what it was. The heap differs from the old one at
  \<open>q\<close> only, and there only in the timestamp, which is the clock reading taken by
  \<open>ask\<close>.
\<close>

theorem quit_leaves_manager:
  assumes "get_next_question (heap s) clock (ticks s) (manager s) = (Some q, t)"
    and "stdin s = line # rest" and "lower line = ''q''"
  shows "\<exists>s'. turn_of clock s = Inr (Done s') \<and> start clock s = Inr s' \<and>
           manager s' = manager s \<and>
           heap s' = (heap s)(q := (heap s q)\<lparr>last_asked := clock t\<rparr>) \<and>
           last_asked (heap s' q) = clock t \<and>
           stdin s' = rest"
proof -
  let ?s' = "s\<lparr>heap := ask (heap s) (clock t) q, ticks := Suc t, stdin := rest\<rparr>"
  have turn: "turn_of clock s = Inr (Done ?s')"
    using assms by (simp add: turn_of_def Let_def)
  then have "start clock s = Inr ?s'"
    by (simp add: start.simps [of clock s])
  with turn show ?thesis
    by (intro exI [of _ ?s']) (simp add: ask_def)
qed

definition demo_session :: session where
  "demo_session =
     \<lparr>heap = demo_heap, allocated = 2, manager = demo_manager, ticks = 0, stdin = [''Q'', ''4'']\<rparr>"

theorem quit_leaves_manager_witness:
  "get_next_question (heap demo_session) (\<lambda>n. 95000000 + n) (ticks demo_session) (manager demo_session)
     = (Some 0, 2) \<and>
   stdin demo_session = ''Q'' # [''4''] \<and> lower ''Q'' = ''q'' \<and>
   (\<exists>s'. start (\<lambda>n. 95000000 + n) demo_session = Inr s' \<and> manager s' = demo_manager \<and>
      last_asked (heap s' 0) = 95000002 \<and> last_asked (demo_heap 0) = 0)"
proof -
  have b0: "get_next_priority_question demo_heap 95000000 (Box ''Missed Questions'' (seconds 60)) = None"
    by (simp add: get_next_priority_question_def Box_def)
  have b1: "get_next_priority_question demo_heap 95000001
      \<lparr>name = ''Unasked Questions'', questions = [0, 1], priority_interval = seconds 0\<rparr> = Some 0"
    by (simp add: get_next_priority_question_def demo_heap_def elapsed_def seconds_def
        ShortAnswer_init_def Question_init_def datetime_min_def)
  have g: "get_next_question (heap demo_session) (\<lambda>n. 95000000 + n) (ticks demo_session)
      (manager demo_session) = (Some 0, 2)"
    using b0 b1 by (simp add: get_next_question_def demo_session_def demo_manager_def)
  have i: "stdin demo_session = ''Q'' # [''4'']"
    by (simp add: demo_session_def)
  have l: "lower ''Q'' = ''q''"
    by code_simp
  have old: "last_asked (demo_heap 0) = 0"
    by (simp add: demo_heap_def ShortAnswer_init_def Question_init_def datetime_min_def)
  from quit_leaves_manager [OF g i l]
  have "\<exists>s'. start (\<lambda>n. 95000000 + n) demo_session = Inr s' \<and> manager s' = demo_manager \<and>
      last_asked (heap s' 0) = 95000002"
    by (auto simp: demo_session_def)
  with g i l old show ?thesis by blast
qed

section \<open>Sequences of calls\<close>

text \<open>
  The calls a client makes on a manager: the three public methods, and \<open>ask\<close> on a
  question, the one change to the objects that happens between the calls of the
  manager. A sequence of calls runs from left to right and stops at the first error.
\<close>

datatype call = AddNew ref | Move ref bool | GetNext | Ask ref

fun do_call :: "(nat \<Rightarrow> datetime) \<Rightarrow> call \<Rightarrow> session \<Rightarrow> error + session" where
  "do_call clock (AddNew q) s =
     (case add_new_question (heap s) q (manager s) of
        Inl e \<Rightarrow> Inl e
      | Inr m \<Rightarrow> Inr (s\<lparr>manager := m\<rparr>))"
| "do_call clock (Move q c) s =
     (case move_question (heap s) q c (manager s) of
        Inl e \<Rightarrow> Inl e
      | Inr m \<Rightarrow> Inr (s\<lparr>manager := m\<rparr>))"
| "do_call clock GetNext s =
     Inr (s\<lparr>ticks := snd (get_next_question (heap s) clock (ticks s) (manager s))\<rparr>)"
| "do_call clock (Ask q) s =
     Inr (s\<lparr>heap := ask (heap s) (clock (ticks s)) q, ticks := Suc (ticks s)\<rparr>)"

fun run :: "(nat \<Rightarrow> datetime) \<Rightarrow> call list \<Rightarrow> session \<Rightarrow> error + session" where
  "run clock [] s = Inr s"
| "run clock (c # cs) s =
     (case do_call clock c s of Inl e \<Rightarrow> Inl e | Inr s' \<Rightarrow> run clock cs s')"

text \<open>
  The discipline of the callers: a question is added once, and moved only after it has
  been added. \<open>added\<close> holds the questions added so far.
\<close>

fun protocol :: "ref list \<Rightarrow> call list \<Rightarrow> bool" where
  "protocol added [] = True"
| "protocol added (AddNew q # cs) = (q \<notin> set added \<and> protocol (q # added) cs)"
| "protocol added (Move q c # cs) = (q \<in> set added \<and> protocol added cs)"
| "protocol added (GetNext # cs) = protocol added cs"
| "protocol added (Ask q # cs) = protocol added cs"

text \<open>The questions a sequence of calls registers.\<close>

fun added_by :: "call \<Rightarrow> ref list" where
  "added_by (AddNew q) = [q]"
| "added_by (Move q c) = []"
| "added_by GetNext = []"
| "added_by (Ask q) = []"

definition registered :: "call list \<Rightarrow> ref list" where
  "registered cs = concat (map added_by cs)"

text \<open>
  The indices of the boxes whose list holds the object \<open>q\<close>. The boxes and the index
  are consistent on the questions \<open>qs\<close> when each of them is held by exactly one of
  the five boxes, once, and the index maps its identifier to that box.
\<close>

definition holding :: "box_manager \<Rightarrow> ref \<Rightarrow> nat list" where
  "holding m q = filter (\<lambda>i. q \<in> set (questions (boxes m ! i))) [0..<length (boxes m)]"

definition consistent :: "heap \<Rightarrow> box_manager \<Rightarrow> ref list \<Rightarrow> bool" where
  "consistent h m qs =
     (length (boxes m) = 5 \<and>
      list_all (\<lambda>q. case holding m q of
                      [i] \<Rightarrow> question_location m (qid (h q)) = Some i \<and>
                             count_list (questions (boxes m ! i)) q = 1
                    | _ \<Rightarrow> False) qs)"

text \<open>
  The invariant behind it, for the set \<open>A\<close> of registered questions: no box holds an
  object twice, the boxes hold registered questions only, each at the index its
  identifier is mapped to, and each registered question is in the box of its index.
\<close>

definition box_inv :: "heap \<Rightarrow> ref set \<Rightarrow> box_manager \<Rightarrow> bool" where
  "box_inv h A m \<longleftrightarrow>
     length (boxes m) = 5 \<and>
     (\<forall>i<5. distinct (questions (boxes m ! i)) \<and>
        (\<forall>x\<in>set (questions (boxes m ! i)). x \<in> A \<and> question_location m (qid (h x)) = Some i)) \<and>
     (\<forall>x\<in>A. \<exists>i<5. question_location m (qid (h x)) = Some i \<and> x \<in> set (questions (boxes m ! i)))"

lemma inv_boxes_subset:
  assumes "box_inv h A m" and "A \<subseteq> R" and "i < 5"
  shows "set (questions (boxes m ! i)) \<subseteq> R"
  using assms unfolding box_inv_def by blast

lemma inv_add:
  fixes m :: box_manager
  assumes inj: "inj_on (\<lambda>r. qid (h r)) R" and sub: "A \<subseteq> R" and qR: "q \<in> R" and fresh: "q \<notin> A"
    and inv: "box_inv h A m"
  shows "\<exists>m'. add_new_question h q m = Inr m' \<and> box_inv h (insert q A) m'"
proof -
  let ?Q = "\<lambda>i. questions (boxes m ! i)"
  let ?m' = "m\<lparr>boxes := (boxes m)[Suc 0 := add_question h q (boxes m ! Suc 0)],
               question_location := (question_location m)(qid (h q) \<mapsto> Suc 0)\<rparr>"
  from inv have len: "length (boxes m) = 5"
    and dist: "\<And>i. i < 5 \<Longrightarrow> distinct (?Q i)"
    and mem: "\<And>i x. i < 5 \<Longrightarrow> x \<in> set (?Q i) \<Longrightarrow> x \<in> A \<and> question_location m (qid (h x)) = Some i"
    and reg: "\<And>x. x \<in> A \<Longrightarrow> \<exists>i<5. question_location m (qid (h x)) = Some i \<and> x \<in> set (?Q i)"
    unfolding box_inv_def by blast+
  have res: "add_new_question h q m = Inr ?m'"
    using len by (simp add: add_new_question_def)
  have "set (?Q (Suc 0)) \<subseteq> R"
    using inv sub by (rule inv_boxes_subset) simp
  then have "questions (add_question h q (boxes m ! Suc 0)) =
      (if q \<in> set (?Q (Suc 0)) then ?Q (Suc 0) else ?Q (Suc 0) @ [q])"
    using inj qR by (simp add: add_question_inj [of h R])
  moreover have "q \<notin> set (?Q (Suc 0))"
    using mem [of "Suc 0" q] fresh by auto
  ultimately have q1: "questions (add_question h q (boxes m ! Suc 0)) = ?Q (Suc 0) @ [q]"
    by simp
  have Q': "questions (boxes ?m' ! i) = (if i = Suc 0 then ?Q (Suc 0) @ [q] else ?Q i)" if "i < 5" for i
    using that len q1 by (simp add: nth_list_update)
  have other: "qid (h x) \<noteq> qid (h q)" if "x \<in> A" for x
  proof
    assume "qid (h x) = qid (h q)"
    with inj sub qR that have "x = q" by (auto dest: inj_onD)
    with fresh that show False by simp
  qed
  have loc_other: "question_location ?m' (qid (h x)) = question_location m (qid (h x))" if "x \<in> A" for x
    using other [OF that] by simp
  have loc_q: "question_location ?m' (qid (h q)) = Some (Suc 0)"
    by simp
  have a: "distinct (questions (boxes ?m' ! i))" if "i < 5" for i
    using that dist [of i] \<open>q \<notin> set (?Q (Suc 0))\<close> Q' [of i] by auto
  have b: "x \<in> insert q A \<and> question_location ?m' (qid (h x)) = Some i"
    if "i < 5" and "x \<in> set (questions (boxes ?m' ! i))" for i x
  proof (cases "x = q")
    case True
    with that fresh mem [of i q] Q' [of i] have "i = Suc 0"
      by (auto split: if_splits)
    with True loc_q show ?thesis by simp
  next
    case False
    with that Q' [of i] have "x \<in> set (?Q i)"
      by (auto split: if_splits)
    with mem [of i x] that(1) loc_other [of x] show ?thesis by simp
  qed
  have c: "\<exists>i<5. question_location ?m' (qid (h x)) = Some i \<and> x \<in> set (questions (boxes ?m' ! i))"
    if "x \<in> insert q A" for x
  proof (cases "x = q")
    case True
    have "q \<in> set (questions (boxes ?m' ! Suc 0))" using Q' [of "Suc 0"] by simp
    with True loc_q show ?thesis by (intro exI [of _ "Suc 0"]) simp
  next
    case False
    with that have xA: "x \<in> A" by simp
    from reg [OF xA] obtain i where i: "i < 5" "question_location m (qid (h x)) = Some i" "x \<in> set (?Q i)"
      by blast
    then have "x \<in> set (questions (boxes ?m' ! i))"
      using Q' [of i] by auto
    with i loc_other [OF xA] show ?thesis by auto
  qed
  have "length (boxes ?m') = 5" using len by simp
  with a b c have "box_inv h (insert q A) ?m'"
    unfolding box_inv_def by blast
  with res show ?thesis by blast
qed


lemma inv_move:
  fixes m :: box_manager
  assumes inj: "inj_on (\<lambda>r. qid (h r)) R" and sub: "A \<subseteq> R" and qA: "q \<in> A"
    and inv: "box_inv h A m"
  shows "\<exists>m'. move_question h q c m = Inr m' \<and> box_inv h A m'"
proof -
  let ?Q = "\<lambda>i. questions (boxes m ! i)"
  from inv have len: "length (boxes m) = 5"
    and dist: "\<And>i. i < 5 \<Longrightarrow> distinct (?Q i)"
    and mem: "\<And>i x. i < 5 \<Longrightarrow> x \<in> set (?Q i) \<Longrightarrow> x \<in> A \<and> question_location m (qid (h x)) = Some i"
    and reg: "\<And>x. x \<in> A \<Longrightarrow> \<exists>i<5. question_location m (qid (h x)) = Some i \<and> x \<in> set (?Q i)"
    unfolding box_inv_def by blast+
  from qA sub have qR: "q \<in> R" by blast
  from reg [OF qA] obtain i where i: "i < 5" and loc: "question_location m (qid (h q)) = Some i"
    and qi: "q \<in> set (?Q i)"
    by blast
  define j where "j = new_box_index i c 5"
  have j: "j < 5" unfolding j_def using i by (rule new_box_index_less)
  define bs1 where "bs1 = (boxes m)[i := remove_question h q (boxes m ! i)]"
  define bs2 where "bs2 = bs1[j := add_question h q (bs1 ! j)]"
  define m' where "m' = m\<lparr>boxes := bs2, question_location := (question_location m)(qid (h q) \<mapsto> j)\<rparr>"
  have res: "move_question h q c m = Inr m'"
    using loc i j len
    by (simp add: move_question_def Let_def m'_def bs2_def bs1_def j_def)
  have subR: "set (?Q k) \<subseteq> R" if "k < 5" for k
    using inv sub that by (rule inv_boxes_subset)
  have rem: "questions (remove_question h q (boxes m ! i)) = remove1 q (?Q i)"
    using inj subR [OF i] qR by (rule remove_question_inj)
  have Q1: "questions (bs1 ! k) = (if k = i then remove1 q (?Q i) else ?Q k)" if "k < 5" for k
    using that len rem by (simp add: bs1_def nth_list_update)
  have only_i: "k = i" if "k < 5" and "q \<in> set (?Q k)" for k
    using mem [OF that] loc by simp
  have notin1: "q \<notin> set (questions (bs1 ! k))" if "k < 5" for k
    using that Q1 [OF that] dist [OF i] only_i [OF that] by auto
  have sub1: "set (questions (bs1 ! k)) \<subseteq> R" if "k < 5" for k
    using that Q1 [OF that] subR [OF that] subR [OF i] by (auto dest: notin_set_remove1)
  have "questions (add_question h q (bs1 ! j)) =
      (if q \<in> set (questions (bs1 ! j)) then questions (bs1 ! j) else questions (bs1 ! j) @ [q])"
    using inj sub1 [OF j] qR by (rule add_question_inj)
  then have add: "questions (add_question h q (bs1 ! j)) = questions (bs1 ! j) @ [q]"
    using notin1 [OF j] by simp
  have len1: "length bs1 = 5" using len by (simp add: bs1_def)
  have Q2: "questions (bs2 ! k) = (if k = j then questions (bs1 ! j) @ [q] else questions (bs1 ! k))"
    if "k < 5" for k
    using that len1 add by (simp add: bs2_def nth_list_update)
  have set2: "set (questions (boxes m' ! k)) = (set (?Q k) - {q}) \<union> (if k = j then {q} else {})"
    if "k < 5" for k
  proof -
    have "set (questions (bs1 ! k)) = set (?Q k) - {q}"
      using Q1 [OF that] dist [OF i] only_i [OF that] by auto
    moreover have "set (questions (bs1 ! j)) = set (?Q j) - {q}"
      using Q1 [OF j] dist [OF i] only_i [OF j] by auto
    ultimately show ?thesis
      using Q2 [OF that] by (auto simp: m'_def)
  qed
  have dist1: "distinct (questions (bs1 ! k))" if "k < 5" for k
    using Q1 [OF that] dist [OF that] dist [OF i] by auto
  have dist2: "distinct (questions (boxes m' ! k))" if "k < 5" for k
    using Q2 [OF that] dist1 [OF that] dist1 [OF j] notin1 [OF j] by (auto simp: m'_def)
  have other: "qid (h x) \<noteq> qid (h q)" if "x \<in> A" and "x \<noteq> q" for x
  proof
    assume "qid (h x) = qid (h q)"
    with inj sub qR that(1) have "x = q" by (auto dest: inj_onD)
    with that(2) show False by simp
  qed
  have loc_other: "question_location m' (qid (h x)) = question_location m (qid (h x))"
    if "x \<in> A" and "x \<noteq> q" for x
    using other [OF that] by (simp add: m'_def)
  have loc_q: "question_location m' (qid (h q)) = Some j"
    by (simp add: m'_def)
  have b: "x \<in> A \<and> question_location m' (qid (h x)) = Some k"
    if "k < 5" and "x \<in> set (questions (boxes m' ! k))" for k x
  proof (cases "x = q")
    case True
    with that set2 [OF that(1)] have "k = j"
      by (auto split: if_splits)
    with True loc_q qA show ?thesis by simp
  next
    case False
    with that set2 [OF that(1)] have "x \<in> set (?Q k)"
      by (auto split: if_splits)
    with mem [OF that(1)] have "x \<in> A" and "question_location m (qid (h x)) = Some k"
      by blast+
    with loc_other [OF _ False] show ?thesis by simp
  qed
  have c: "\<exists>k<5. question_location m' (qid (h x)) = Some k \<and> x \<in> set (questions (boxes m' ! k))"
    if "x \<in> A" for x
  proof (cases "x = q")
    case True
    have "q \<in> set (questions (boxes m' ! j))"
      using set2 [OF j] by simp
    with True loc_q j show ?thesis by blast
  next
    case False
    from reg [OF that] obtain k where k: "k < 5" "question_location m (qid (h x)) = Some k" "x \<in> set (?Q k)"
      by blast
    then have "x \<in> set (questions (boxes m' ! k))"
      using set2 [OF k(1)] False by simp
    with k loc_other [OF that False] show ?thesis by auto
  qed
  have "length (boxes m') = 5"
    using len1 by (simp add: m'_def bs2_def)
  with dist2 b c have "box_inv h A m'"
    unfolding box_inv_def by blast
  with res show ?thesis by blast
qed


lemma qid_ask: "qid (ask h t q r) = qid (h r)"
  by (simp add: ask_def)

lemma inv_ask: "box_inv (ask h t q) A m = box_inv h A m"
  by (simp add: box_inv_def qid_ask)

lemma do_call_inv:
  assumes inj: "inj_on (\<lambda>r. qid (heap s r)) R" and sub: "set added \<subseteq> R"
    and reg: "set (added_by c) \<subseteq> R"
    and ok: "protocol added [c]"
    and inv: "box_inv (heap s) (set added) (manager s)"
  shows "\<exists>s'. do_call clock c s = Inr s' \<and> inj_on (\<lambda>r. qid (heap s' r)) R \<and>
           box_inv (heap s') (set added \<union> set (added_by c)) (manager s')"
proof (cases c)
  case (AddNew q)
  with ok reg have "q \<notin> set added" and "q \<in> R" by simp_all
  with inv_add [OF inj sub _ _ inv, of q]
  obtain m' where "add_new_question (heap s) q (manager s) = Inr m'"
    and "box_inv (heap s) (insert q (set added)) m'"
    by blast
  with AddNew inj show ?thesis by simp
next
  case (Move q b)
  with ok have "q \<in> set added" by simp
  with inv_move [OF inj sub _ inv, of q b]
  obtain m' where "move_question (heap s) q b (manager s) = Inr m'"
    and "box_inv (heap s) (set added) m'"
    by blast
  with Move inj show ?thesis by simp
next
  case GetNext
  with inj inv show ?thesis by simp
next
  case (Ask q)
  with inj inv show ?thesis by (simp add: qid_ask inv_ask)
qed


lemma protocol_Cons:
  "protocol added (c # cs) \<Longrightarrow> protocol added [c] \<and> protocol (added_by c @ added) cs"
  by (cases c) simp_all

lemma registered_Cons: "registered (c # cs) = added_by c @ registered cs"
  by (simp add: registered_def)

lemma run_inv:
  assumes "protocol added cs" and "inj_on (\<lambda>r. qid (heap s r)) R"
    and "set added \<union> set (registered cs) \<subseteq> R"
    and "box_inv (heap s) (set added) (manager s)"
  shows "\<forall>n\<le>length cs. \<exists>s'. run clock (take n cs) s = Inr s' \<and>
           box_inv (heap s') (set added \<union> set (registered (take n cs))) (manager s')"
  using assms
proof (induction cs arbitrary: s added)
  case Nil
  then show ?case by (simp add: registered_def)
next
  case (Cons c cs)
  have ok: "protocol added [c]" and rest: "protocol (added_by c @ added) cs"
    using protocol_Cons [OF Cons.prems(1)] by simp_all
  from Cons.prems(3) have sub: "set added \<subseteq> R" and reg: "set (added_by c) \<subseteq> R"
    and sub': "set (added_by c @ added) \<union> set (registered cs) \<subseteq> R"
    by (auto simp: registered_Cons)
  from do_call_inv [OF Cons.prems(2) sub reg ok Cons.prems(4), of clock]
  obtain s1 where s1: "do_call clock c s = Inr s1" and inj1: "inj_on (\<lambda>r. qid (heap s1 r)) R"
    and inv1: "box_inv (heap s1) (set added \<union> set (added_by c)) (manager s1)"
    by blast
  have "set added \<union> set (added_by c) = set (added_by c @ added)"
    by auto
  with inv1 have inv1': "box_inv (heap s1) (set (added_by c @ added)) (manager s1)"
    by (simp only:)
  note IH = Cons.IH [OF rest inj1 sub' inv1', rule_format]
  show ?case
  proof (intro allI impI)
    fix n assume n: "n \<le> length (c # cs)"
    show "\<exists>s'. run clock (take n (c # cs)) s = Inr s' \<and>
        box_inv (heap s') (set added \<union> set (registered (take n (c # cs)))) (manager s')"
    proof (cases n)
      case 0
      have "registered (take 0 (c # cs)) = []"
        by (simp add: registered_def)
      with Cons.prems(4) show ?thesis
        unfolding 0 by simp
    next
      case (Suc k)
      with n have "k \<le> length cs" by simp
      from IH [OF this] obtain s' where s': "run clock (take k cs) s1 = Inr s'"
        "box_inv (heap s') (set (added_by c @ added) \<union> set (registered (take k cs))) (manager s')"
        by blast
      have eq: "set (added_by c @ added) \<union> set (registered (take k cs)) =
          set added \<union> set (registered (take (Suc k) (c # cs)))"
        by (auto simp: registered_Cons)
      from s'(2) have "box_inv (heap s') (set added \<union> set (registered (take (Suc k) (c # cs)))) (manager s')"
        by (simp only: eq)
      moreover have "run clock (take (Suc k) (c # cs)) s = Inr s'"
        using s1 s'(1) by simp
      ultimately show ?thesis
        unfolding Suc by blast
    qed
  qed
qed

lemma filter_eq_upt: "i < n \<Longrightarrow> filter (\<lambda>k. k = i) [0..<n] = [i]"
proof (induction n)
  case 0
  then show ?case by simp
next
  case (Suc n)
  show ?case
  proof (cases "i = n")
    case True
    have "\<forall>k\<in>set [0..<n]. k \<noteq> i"
      using True by simp
    then have "filter (\<lambda>k. k = i) [0..<n] = []"
      by (simp only: filter_empty_conv)
    with True show ?thesis by simp
  next
    case False
    with Suc.prems have "i < n" by simp
    from Suc.IH [OF this] False show ?thesis by auto
  qed
qed

lemma filter_upt_single:
  assumes "i < n" and "P i" and "\<And>k. k < n \<Longrightarrow> P k \<Longrightarrow> k = i"
  shows "filter P [0..<n] = [i]"
proof -
  have iff: "P k = (k = i)" if "k < n" for k
  proof
    assume "P k"
    with that show "k = i" by (rule assms(3))
  next
    assume "k = i"
    with assms(2) show "P k" by simp
  qed
  have "filter P [0..<n] = filter (\<lambda>k. k = i) [0..<n]"
  proof (rule filter_cong)
    show "[0..<n] = [0..<n]" ..
    fix k assume "k \<in> set [0..<n]"
    then have "k < n" by simp
    then show "P k = (k = i)" by (rule iff)
  qed
  also have "\<dots> = [i]" using assms(1) by (rule filter_eq_upt)
  finally show ?thesis .
qed


lemma distinct_count_one: "distinct xs \<Longrightarrow> x \<in> set xs \<Longrightarrow> count_list xs x = 1"
  by (induction xs) auto

lemma inv_consistent:
  fixes m :: box_manager
  assumes "box_inv h A m" and "set qs \<subseteq> A"
  shows "consistent h m qs"
proof -
  let ?Q = "\<lambda>i. questions (boxes m ! i)"
  from assms(1) have len: "length (boxes m) = 5"
    and dist: "\<And>i. i < 5 \<Longrightarrow> distinct (?Q i)"
    and mem: "\<And>i x. i < 5 \<Longrightarrow> x \<in> set (?Q i) \<Longrightarrow> x \<in> A \<and> question_location m (qid (h x)) = Some i"
    and reg: "\<And>x. x \<in> A \<Longrightarrow> \<exists>i<5. question_location m (qid (h x)) = Some i \<and> x \<in> set (?Q i)"
    unfolding box_inv_def by blast+
  have one: "case holding m q of
          [i] \<Rightarrow> question_location m (qid (h q)) = Some i \<and> count_list (?Q i) q = 1
        | _ \<Rightarrow> False" if "q \<in> set qs" for q
  proof -
    from that assms(2) have "q \<in> A" by blast
    from reg [OF this] obtain i where i: "i < 5" "question_location m (qid (h q)) = Some i" "q \<in> set (?Q i)"
      by blast
    have uniq: "k = i" if "k < 5" and "q \<in> set (?Q k)" for k
      using mem [OF that] i(2) by simp
    have "filter (\<lambda>k. q \<in> set (?Q k)) [0..<5] = [i]"
    proof (rule filter_upt_single)
      show "i < 5" by (rule i(1))
      show "q \<in> set (?Q i)" by (rule i(3))
      show "k = i" if "k < 5" and "q \<in> set (?Q k)" for k
        using that by (rule uniq)
    qed
    then have hold: "holding m q = [i]"
      by (simp only: holding_def len)
    have cnt: "count_list (?Q i) q = 1"
      using dist [OF i(1)] i(3) by (rule distinct_count_one)
    show ?thesis
      unfolding hold using i(2) cnt by simp
  qed
  have "list_all (\<lambda>q. case holding m q of
          [i] \<Rightarrow> question_location m (qid (h q)) = Some i \<and> count_list (?Q i) q = 1
        | _ \<Rightarrow> False) qs"
    unfolding list_all_iff using one by blast
  with len show ?thesis
    unfolding consistent_def by blast
qed

lemma box_inv_init: "box_inv h {} BoxManager_init"
  by (simp add: box_inv_def BoxManager_init_def Box_def eval_nat_numeral All_less_Suc)

text \<open>
  C5. Take a sequence of calls that follows the discipline (each question added once,
  and before any move of it), on questions with pairwise distinct identifiers, run
  from a state with a fresh manager. Every prefix of the sequence runs without error,
  and after it the boxes and the index are consistent on the questions registered by
  that prefix: each is held by exactly one of the five boxes, once, and the location
  index maps its identifier to the index of that box.
\<close>

theorem boxes_and_index_consistent:
  assumes "protocol [] cs" and "inj_on (\<lambda>q. qid (heap s q)) (set (registered cs))"
    and "manager s = BoxManager_init"
  shows "\<forall>n\<le>length cs. \<exists>s'. run clock (take n cs) s = Inr s' \<and>
           consistent (heap s') (manager s') (registered (take n cs))"
proof (intro allI impI)
  fix n assume n: "n \<le> length cs"
  have sub: "set [] \<union> set (registered cs) \<subseteq> set (registered cs)"
    by simp
  have init: "box_inv (heap s) (set []) (manager s)"
    unfolding assms(3) by (simp add: box_inv_init)
  from run_inv [OF assms(1,2) sub init, rule_format, OF n, of clock]
  obtain s' where s': "run clock (take n cs) s = Inr s'"
    and inv: "box_inv (heap s') (set [] \<union> set (registered (take n cs))) (manager s')"
    by blast
  have "set (registered (take n cs)) \<subseteq> set [] \<union> set (registered (take n cs))"
    by simp
  with inv have "consistent (heap s') (manager s') (registered (take n cs))"
    by (rule inv_consistent)
  with s' show "\<exists>s'. run clock (take n cs) s = Inr s' \<and>
      consistent (heap s') (manager s') (registered (take n cs))"
    by blast
qed

text \<open>
  Objects 0 and 1 of \<open>demo_heap\<close> are added, the next question is asked for, object 0
  is asked and answered correctly, object 1 incorrectly, object 0 correctly again.
\<close>

definition demo_calls :: "call list" where
  "demo_calls = [AddNew 0, AddNew 1, GetNext, Ask 0, Move 0 True, Move 1 False, Move 0 True]"

definition demo_start :: session where
  "demo_start = \<lparr>heap = demo_heap, allocated = 2, manager = BoxManager_init, ticks = 0, stdin = []\<rparr>"

theorem boxes_and_index_consistent_witness:
  "protocol [] demo_calls \<and> registered demo_calls = [0, 1] \<and>
   qid (heap demo_start 0) \<noteq> qid (heap demo_start 1) \<and>
   manager demo_start = BoxManager_init \<and>
   (\<exists>s'. run (\<lambda>n. 95000000 + n) demo_calls demo_start = Inr s' \<and>
      consistent (heap s') (manager s') [0, 1])"
proof -
  have p: "protocol [] demo_calls"
    by (simp add: demo_calls_def)
  have r: "registered demo_calls = [0, 1]"
    by (simp add: demo_calls_def registered_def)
  have ids: "qid (heap demo_start q) = q" for q
    by (simp add: demo_start_def demo_heap_def ShortAnswer_init_def Question_init_def)
  have i: "inj_on (\<lambda>q. qid (heap demo_start q)) (set (registered demo_calls))"
    by (simp add: ids)
  have m: "manager demo_start = BoxManager_init"
    by (simp add: demo_start_def)
  have l: "length demo_calls \<le> length demo_calls"
    by simp
  from boxes_and_index_consistent [OF p i m, rule_format, OF l, of "\<lambda>n. 95000000 + n"]
  have "\<exists>s'. run (\<lambda>n. 95000000 + n) demo_calls demo_start = Inr s' \<and>
      consistent (heap s') (manager s') [0, 1]"
    by (simp only: take_all [OF order_refl] r)
  with p r ids [of 0] ids [of 1] m show ?thesis by simp
qed

end
